theory Spec2Isabelle
  imports Main
begin

section \<open>Python strings\<close>

text \<open>
  A Python \<open>str\<close> is modelled as a \<^typ>\<open>string\<close>: a list of 8-bit characters, read as the
  code points U+0000 to U+00FF. The character classes below are those of Python 3 on
  that range: \<open>str.isspace\<close>, \<open>str.isalnum\<close> and the line boundaries of
  \<open>str.splitlines\<close>.
\<close>

definition LF :: char where
  "LF = CHR 0x0A"

definition CR :: char where
  "CR = CHR 0x0D"

definition NEW_LINE :: string where
  "NEW_LINE = [LF]"

definition isspace :: "char \<Rightarrow> bool" where
  "isspace c \<longleftrightarrow>
     c \<in> {CHR 0x09, CHR 0x0A, CHR 0x0B, CHR 0x0C, CHR 0x0D, CHR 0x1C, CHR 0x1D, CHR 0x1E,
          CHR 0x1F, CHR 0x20, CHR 0x85, CHR 0xA0}"

definition isalnum :: "char \<Rightarrow> bool" where
  "isalnum c \<longleftrightarrow>
     (let n = (of_char c :: nat) in
        (0x30 \<le> n \<and> n \<le> 0x39) \<or> (0x41 \<le> n \<and> n \<le> 0x5A) \<or> (0x61 \<le> n \<and> n \<le> 0x7A) \<or>
        n = 0xAA \<or> n = 0xB2 \<or> n = 0xB3 \<or> n = 0xB5 \<or> n = 0xB9 \<or> n = 0xBA \<or>
        (0xBC \<le> n \<and> n \<le> 0xBE) \<or> (0xC0 \<le> n \<and> n \<le> 0xD6) \<or>
        (0xD8 \<le> n \<and> n \<le> 0xF6) \<or> 0xF8 \<le> n)"

definition is_linebreak :: "char \<Rightarrow> bool" where
  "is_linebreak c \<longleftrightarrow>
     c \<in> {CHR 0x0A, CHR 0x0B, CHR 0x0C, CHR 0x0D, CHR 0x1C, CHR 0x1D, CHR 0x1E, CHR 0x85}"

text \<open>\<open>s.rstrip()\<close>, \<open>s.lstrip()\<close>, \<open>s.strip()\<close> and \<open>s.rstrip(chars)\<close>.\<close>

definition rstrip :: "string \<Rightarrow> string" where
  "rstrip s = rev (dropWhile isspace (rev s))"

definition lstrip :: "string \<Rightarrow> string" where
  "lstrip s = dropWhile isspace s"

definition strip :: "string \<Rightarrow> string" where
  "strip s = lstrip (rstrip s)"

definition rstrip_chars :: "string \<Rightarrow> string \<Rightarrow> string" where
  "rstrip_chars chars s = rev (dropWhile (\<lambda>c. c \<in> set chars) (rev s))"

section \<open>Normalization\<close>

text \<open>\<open>AnnotationParser._normalize_block\<close>: \<open>block_text.rstrip() + "\n"\<close>.\<close>

definition normalize_block :: "string \<Rightarrow> string" where
  "normalize_block block_text = rstrip block_text @ NEW_LINE"

section \<open>Text streams\<close>

text \<open>
  \<open>open(path, 'r', encoding='utf-8')\<close> reads with universal newlines: \<open>"\r\n"\<close> and
  \<open>"\r"\<close> arrive as \<open>"\n"\<close>. The open file is the text that is still unread;
  \<open>readline\<close> returns the next line with its terminator (the empty string at end of
  file) and the text that remains.
\<close>

fun universal_newlines :: "string \<Rightarrow> string" where
  "universal_newlines [] = []"
| "universal_newlines [c] = (if c = CR then [LF] else [c])"
| "universal_newlines (c # d # cs) =
     (if c = CR \<and> d = LF then LF # universal_newlines cs
      else if c = CR then LF # universal_newlines (d # cs)
      else c # universal_newlines (d # cs))"

fun readline :: "string \<Rightarrow> string \<times> string" where
  "readline [] = ([], [])"
| "readline (c # cs) =
     (if c = LF then ([c], cs) else (case readline cs of (l, r) \<Rightarrow> (c # l, r)))"

lemma readline_append: "readline s = (l, r) \<Longrightarrow> s = l @ r"
  by (induction s arbitrary: l r) (auto split: if_splits prod.splits)

lemma readline_shorter: "readline s = (l, r) \<Longrightarrow> l \<noteq> [] \<Longrightarrow> length r < length s"
  by (drule readline_append) simp

section \<open>Reader\<close>

text \<open>
  \<open>AnnotationParser._read_block\<close>: the \<open>while True\<close> loop over \<open>infile.readline()\<close>,
  with the accumulated \<open>annotation\<close> as an argument, then \<open>annotation + NEW_LINE\<close>.
\<close>

definition separator :: string where
  "separator = ''==========''"

function read_block_loop :: "string \<Rightarrow> string \<Rightarrow> string \<times> string" where
  "read_block_loop annotation infile =
     (case readline infile of (current_line, infile') \<Rightarrow>
        if current_line = [] \<or> strip current_line = separator then (annotation, infile')
        else (let current_line = rstrip_chars [CR, LF] current_line in
              if current_line = [] then read_block_loop (annotation @ current_line) infile'
              else read_block_loop (annotation @ current_line @ NEW_LINE) infile'))"
  by pat_completeness auto
termination
  by (relation "measure (\<lambda>(annotation, infile). length infile)")
     (auto dest: readline_shorter [OF sym])

declare read_block_loop.simps [simp del]

definition read_block :: "string \<Rightarrow> string \<times> string" where
  "read_block infile =
     (case read_block_loop [] infile of (annotation, infile') \<Rightarrow> (annotation @ NEW_LINE, infile'))"


lemma read_block_loop_length:
  "read_block_loop annotation infile = (a, r) \<Longrightarrow> length r \<le> length infile"
proof (induction annotation infile arbitrary: a r rule: read_block_loop.induct)
  case (1 annotation infile)
  obtain l r' where lr: "readline infile = (l, r')" by force
  then have len: "length r' \<le> length infile" by (auto dest: readline_append)
  show ?case
  proof (cases "l = [] \<or> strip l = separator")
    case True
    with "1.prems" lr len show ?thesis by (simp add: read_block_loop.simps [of annotation infile])
  next
    case False
    with "1.prems" lr have "length r \<le> length r'"
      using "1.IH"(1) [OF lr [symmetric] False refl, of a r]
            "1.IH"(2) [OF lr [symmetric] False refl, of a r]
      by (simp add: read_block_loop.simps [of annotation infile] Let_def split: if_splits)
    with len show ?thesis by simp
  qed
qed

lemma read_block_length: "read_block infile = (a, r) \<Longrightarrow> length r \<le> length infile"
  by (cases "read_block_loop [] infile") (auto simp: read_block_def dest: read_block_loop_length)

text \<open>
  \<open>self.books\<close> is a dict from header to a dict from block to \<open>True\<close>. Python dicts keep
  insertion order, so each is an association list; the inner one only ever holds the value
  \<open>True\<close> and is the list of its keys. \<open>setdefault\<close> appends a key that is absent and leaves
  a present key where it is.
\<close>

type_synonym annotation_dict = "string list"
type_synonym book_dict = "(string \<times> annotation_dict) list"

definition setdefault :: "annotation_dict \<Rightarrow> string \<Rightarrow> annotation_dict" where
  "setdefault d k = (if k \<in> set d then d else d @ [k])"

fun dict_get :: "book_dict \<Rightarrow> string \<Rightarrow> annotation_dict option" where
  "dict_get [] k = None"
| "dict_get ((k', v) # kvs) k = (if k' = k then Some v else dict_get kvs k)"

fun dict_set :: "book_dict \<Rightarrow> string \<Rightarrow> annotation_dict \<Rightarrow> book_dict" where
  "dict_set [] k v = [(k, v)]"
| "dict_set ((k', v') # kvs) k v = (if k' = k then (k, v) # kvs else (k', v') # dict_set kvs k v)"

definition add_block :: "book_dict \<Rightarrow> string \<Rightarrow> string \<Rightarrow> book_dict" where
  "add_block books header_line annotation_block =
     (let books = (if dict_get books header_line = None then dict_set books header_line [] else books)
      in dict_set books header_line (setdefault (the (dict_get books header_line)) annotation_block))"

text \<open>
  \<open>AnnotationParser._read\<close>, the loop over the open input file: \<open>clean_header\<close> is the
  treatment of the header line (\<open>rstrip('\r\n')\<close>, then dropping a first character that is
  not alphanumeric).
\<close>

definition clean_header :: "string \<Rightarrow> string" where
  "clean_header header_line =
     (let header_line = rstrip_chars [CR, LF] header_line
      in if header_line \<noteq> [] \<and> \<not> isalnum (hd header_line) then tl header_line else header_line)"

function read_loop :: "book_dict \<Rightarrow> string \<Rightarrow> book_dict" where
  "read_loop books infile =
     (case readline infile of (header_line, infile') \<Rightarrow>
        if header_line = [] then books
        else (let header_line = clean_header header_line in
              if header_line = [] then read_loop books infile'
              else (case read_block infile' of (annotation_block, infile'') \<Rightarrow>
                      read_loop (add_block books header_line (normalize_block annotation_block))
                        infile'')))"
  by pat_completeness auto
termination
  by (relation "measure (\<lambda>(books, infile). length infile)")
     (auto dest!: readline_shorter [OF sym] read_block_length [OF sym])

declare read_loop.simps [simp del]


text \<open>
  The lines that remain in an open file, as successive calls of \<open>readline\<close> return them,
  and the separator test of the specification.
\<close>

function readlines :: "string \<Rightarrow> string list" where
  "readlines infile =
     (case readline infile of (line, infile') \<Rightarrow>
        if line = [] then [] else line # readlines infile')"
  by pat_completeness auto
termination
  by (relation "measure length") (auto dest: readline_shorter [OF sym])

declare readlines.simps [simp del]

definition is_separator :: "string \<Rightarrow> bool" where
  "is_separator line \<longleftrightarrow> strip line = separator"

text \<open>
  The raw block in the words of the specification: up to the first separator line, a blank
  line (one with nothing but whitespace, as in the Merger's splitting procedure)
  contributes nothing and a non-blank line contributes itself and one line terminator; one
  more line terminator ends the block.
\<close>

definition is_blank :: "string \<Rightarrow> bool" where
  "is_blank line \<longleftrightarrow> strip line = []"

definition contribution_claimed :: "string \<Rightarrow> string" where
  "contribution_claimed line =
     (if is_blank line then [] else rstrip_chars [CR, LF] line @ NEW_LINE)"

definition raw_block_claimed :: "string list \<Rightarrow> string" where
  "raw_block_claimed lines =
     concat (map contribution_claimed (takeWhile (\<lambda>line. \<not> is_separator line) lines))
     @ NEW_LINE"

text \<open>
  The amended rule: only an empty line (one with nothing but its line terminator)
  contributes nothing; every other line, a line of spaces or tabs too, contributes
  itself and one line terminator.
\<close>

definition is_empty_line :: "string \<Rightarrow> bool" where
  "is_empty_line line \<longleftrightarrow> rstrip_chars [CR, LF] line = []"

definition contribution_amended :: "string \<Rightarrow> string" where
  "contribution_amended line =
     (if is_empty_line line then [] else rstrip_chars [CR, LF] line @ NEW_LINE)"

definition raw_block_amended :: "string list \<Rightarrow> string" where
  "raw_block_amended lines =
     concat (map contribution_amended (takeWhile (\<lambda>line. \<not> is_separator line) lines))
     @ NEW_LINE"

section \<open>Merger\<close>

text \<open>
  \<open>str.splitlines()\<close>, \<open>str.split(sep)\<close> for a one-character separator and
  \<open>sep.join(xs)\<close>.
\<close>

fun splitlines :: "string \<Rightarrow> string list" where
  "splitlines [] = []"
| "splitlines (c # cs) =
     (if is_linebreak c
      then [] # splitlines (if c = CR \<and> cs \<noteq> [] \<and> hd cs = LF then tl cs else cs)
      else (case splitlines cs of [] \<Rightarrow> [[c]] | l # ls \<Rightarrow> (c # l) # ls))"

fun split :: "char \<Rightarrow> string \<Rightarrow> string list" where
  "split sep [] = [[]]"
| "split sep (c # cs) =
     (if c = sep then [] # split sep cs
      else (case split sep cs of [] \<Rightarrow> [[c]] | l # ls \<Rightarrow> (c # l) # ls))"

fun join :: "string \<Rightarrow> string list \<Rightarrow> string" where
  "join sep [] = []"
| "join sep [x] = x"
| "join sep (x # y # ys) = x @ sep @ join sep (y # ys)"

text \<open>
  \<open>AnnotationParser._split_into_blocks\<close>: the \<open>for line in lines\<close> loop carries
  \<open>blocks\<close> and \<open>current_block\<close>.
\<close>

fun split_loop :: "string list \<Rightarrow> string list \<Rightarrow> string list \<Rightarrow> string list \<times> string list" where
  "split_loop [] blocks current_block = (blocks, current_block)"
| "split_loop (line # lines) blocks current_block =
     (if strip line = []
      then (if current_block \<noteq> []
            then split_loop lines (blocks @ [join NEW_LINE current_block @ NEW_LINE]) []
            else split_loop lines blocks current_block)
      else split_loop lines blocks (current_block @ [line]))"

definition split_into_blocks :: "string \<Rightarrow> string list" where
  "split_into_blocks annotation_text =
     (let lines = split LF annotation_text in
      case split_loop lines [] [] of (blocks, current_block) \<Rightarrow>
        if current_block \<noteq> [] then blocks @ [join NEW_LINE current_block @ NEW_LINE]
        else blocks)"

text \<open>
  \<open>AnnotationParser._read_existing_blocks\<close> and \<open>_merge_with_existing\<close>, given the
  content \<open>f.read()\<close> of the existing file rather than its path.
\<close>

definition read_existing_blocks :: "string \<Rightarrow> string list" where
  "read_existing_blocks content =
     (let lines = splitlines content;
          idx = (1::nat);
          idx = (if idx < length lines \<and> strip (lines ! idx) = [] then idx + 1 else idx);
          annotation_lines = drop idx lines;
          annotation_text = join NEW_LINE annotation_lines
      in split_into_blocks annotation_text)"

fun merge_loop :: "string list \<Rightarrow> annotation_dict \<Rightarrow> annotation_dict" where
  "merge_loop [] annotation_dict = annotation_dict"
| "merge_loop (block # old_blocks) annotation_dict =
     merge_loop old_blocks (setdefault annotation_dict (normalize_block block))"

definition merge_with_existing :: "string \<Rightarrow> annotation_dict \<Rightarrow> annotation_dict" where
  "merge_with_existing content annotation_dict =
     merge_loop (read_existing_blocks content) annotation_dict"

section \<open>Writer\<close>

text \<open>
  \<open>str.rfind\<close> for a one-character needle, a slice \<open>s[a:b]\<close> with indices that are not
  negative, and \<open>AnnotationParser._get_title_author\<close>.
\<close>

definition rfind :: "char \<Rightarrow> string \<Rightarrow> int" where
  "rfind c s =
     (if c \<in> set s then int (length s) - 1 - int (length (takeWhile (\<lambda>x. x \<noteq> c) (rev s)))
      else - 1)"

definition slice :: "string \<Rightarrow> int \<Rightarrow> int \<Rightarrow> string" where
  "slice s a b = take (nat b - nat a) (drop (nat a) s)"

definition get_title_author :: "string \<Rightarrow> string \<times> string" where
  "get_title_author book_header =
     (let open_paren = rfind CHR ''('' book_header;
          close_paren = rfind CHR '')'' book_header
      in if open_paren > 0 \<and> close_paren > open_paren
         then (strip (slice book_header 0 open_paren),
               strip (slice book_header (open_paren + 1) close_paren))
         else (strip book_header, []))"

text \<open>
  The file name. \<open>str(n)\<close> of an integer is its decimal numeral. The built-in \<open>hash\<close> of
  the running Python process is a parameter of the model: for a \<open>str\<close> it is keyed with a
  secret drawn at interpreter start-up (hash randomization), so two processes are two
  functions \<open>hash\<close>.
\<close>

definition digit_char :: "nat \<Rightarrow> char" where
  "digit_char d = char_of (48 + d)"

fun str_nat :: "nat \<Rightarrow> string" where
  "str_nat n = (if n < 10 then [digit_char n] else str_nat (n div 10) @ [digit_char (n mod 10)])"

declare str_nat.simps [simp del]

definition str_int :: "int \<Rightarrow> string" where
  "str_int i = (if i < 0 then CHR ''-'' # str_nat (nat (- i)) else str_nat (nat i))"

definition MAX_TITLE_LENGTH :: nat where
  "MAX_TITLE_LENGTH = 112"

definition output_filename :: "(string \<Rightarrow> int) \<Rightarrow> string \<Rightarrow> string" where
  "output_filename hash raw_header =
     (case get_title_author raw_header of (title, author) \<Rightarrow>
        let clean_title = filter (\<lambda>ch. isalnum ch \<or> ch \<in> set '' ._()-'') title;
            clean_title = take MAX_TITLE_LENGTH clean_title;
            hash_str = str_int (hash raw_header)
        in clean_title @ ''_'' @ hash_str @ ''.txt'')"

text \<open>
  \<open>os.path.join\<close> of two components (POSIX). The file system is a map from paths to the
  text stored at them; writing stores the text as it is, reading translates newlines.
\<close>

definition path_join :: "string \<Rightarrow> string \<Rightarrow> string" where
  "path_join a b =
     (if b \<noteq> [] \<and> hd b = CHR ''/'' then b
      else if a = [] \<or> last a = CHR ''/'' then a @ b
      else a @ ''/'' @ b)"

type_synonym filesystem = "string \<rightharpoonup> string"

definition open_read :: "filesystem \<Rightarrow> string \<Rightarrow> string option" where
  "open_read fs path = map_option universal_newlines (fs path)"

text \<open>
  \<open>AnnotationParser._write\<close>: \<open>file_text\<close> is everything the \<open>with open(fullpath, 'w')\<close>
  block writes, \<open>write_book\<close> one iteration of the loop over \<open>self.books.items()\<close>
  (merging extends the book's own dict in place), \<open>write_loop\<close> the loop.
\<close>

definition file_text :: "string \<Rightarrow> string \<Rightarrow> annotation_dict \<Rightarrow> string" where
  "file_text title author annotation_dict =
     title @ '', '' @ author @ [LF, LF] @ concat (map (\<lambda>block_text. block_text @ [LF]) annotation_dict)"

definition write_book ::
  "(string \<Rightarrow> int) \<Rightarrow> string \<Rightarrow> bool \<Rightarrow> string \<Rightarrow> annotation_dict \<Rightarrow> filesystem
     \<Rightarrow> annotation_dict \<times> filesystem" where
  "write_book hash output_path merge_option raw_header annotation_dict fs =
     (case get_title_author raw_header of (title, author) \<Rightarrow>
        let fullpath = path_join output_path (output_filename hash raw_header);
            annotation_dict =
              (if merge_option \<and> fs fullpath \<noteq> None
               then merge_with_existing (the (open_read fs fullpath)) annotation_dict
               else annotation_dict)
        in (annotation_dict, fs(fullpath \<mapsto> file_text title author annotation_dict)))"

fun write_loop ::
  "(string \<Rightarrow> int) \<Rightarrow> string \<Rightarrow> bool \<Rightarrow> book_dict \<Rightarrow> filesystem \<Rightarrow> book_dict \<times> filesystem" where
  "write_loop hash output_path merge_option [] fs = ([], fs)"
| "write_loop hash output_path merge_option ((raw_header, annotation_dict) # items) fs =
     (case write_book hash output_path merge_option raw_header annotation_dict fs of
        (annotation_dict', fs') \<Rightarrow>
          (case write_loop hash output_path merge_option items fs' of
             (items', fs'') \<Rightarrow> ((raw_header, annotation_dict') # items', fs'')))"

section \<open>The parser object\<close>

record parser =
  input_path :: string
  output_path :: string
  books :: book_dict
  merge_option :: bool

definition init :: "string \<Rightarrow> string \<Rightarrow> bool \<Rightarrow> parser" where
  "init inp out merge = \<lparr>input_path = inp, output_path = out, books = [], merge_option = merge\<rparr>"

datatype py_error = FileNotFoundError

definition read :: "parser \<Rightarrow> filesystem \<Rightarrow> py_error + parser" where
  "read self fs =
     (case open_read fs (input_path self) of
        None \<Rightarrow> Inl FileNotFoundError
      | Some infile \<Rightarrow> Inr (self\<lparr>books := read_loop (books self) infile\<rparr>))"

text \<open>
  \<open>AnnotationParser._write\<close> opens with
  \<open>if not os.path.exists(self.output_path): os.makedirs(self.output_path, exist_ok=True)\<close>.
  The file system of this model holds files only, so a directory is not an entry of it.
  For the empty path \<open>os.path.exists\<close> is false and \<open>os.makedirs\<close> raises
  \<open>FileNotFoundError\<close>, before any file is written; every other output path is taken to
  name a directory that exists or can be created.
\<close>

definition makedirs :: "string \<Rightarrow> py_error option" where
  "makedirs path = (if path = [] then Some FileNotFoundError else None)"

definition write_all ::
  "(string \<Rightarrow> int) \<Rightarrow> parser \<Rightarrow> filesystem \<Rightarrow> py_error + parser \<times> filesystem" where
  "write_all hash self fs =
     (case makedirs (output_path self) of
        Some e \<Rightarrow> Inl e
      | None \<Rightarrow>
          (case write_loop hash (output_path self) (merge_option self) (books self) fs of
             (books', fs') \<Rightarrow> Inr (self\<lparr>books := books'\<rparr>, fs')))"

text \<open>
  \<open>AnnotationParser.parse\<close>: \<open>self._read()\<close>, then \<open>self._write()\<close>. The result is the
  exception raised, if any, with the parser object and the file system as they are left.
\<close>

definition parse ::
  "(string \<Rightarrow> int) \<Rightarrow> parser \<Rightarrow> filesystem \<Rightarrow> py_error option \<times> parser \<times> filesystem" where
  "parse hash self fs =
     (case read self fs of
        Inl e \<Rightarrow> (Some e, self, fs)
      | Inr self' \<Rightarrow>
          (case write_all hash self' fs of
             Inl e \<Rightarrow> (Some e, self', fs)
           | Inr (self'', fs') \<Rightarrow> (None, self'', fs')))"

definition number_of_books :: "parser \<Rightarrow> nat" where
  "number_of_books self = length (books self)"

section \<open>Notions of the specification\<close>

text \<open>
  The invariant of a book's block set: no two stored blocks are equal after
  normalization, and every stored block is in canonical form.
\<close>

definition block_inv :: "annotation_dict \<Rightarrow> bool" where
  "block_inv d \<longleftrightarrow> distinct (map normalize_block d) \<and> list_all (\<lambda>b. normalize_block b = b) d"

definition book_inv :: "book_dict \<Rightarrow> bool" where
  "book_inv bks \<longleftrightarrow> list_all (\<lambda>(h, d). block_inv d) bks"

text \<open>
  The merged order in the words of the specification: the blocks of the current run, then
  the recovered blocks that are not among them, in their original order, each kept at its
  first occurrence only.
\<close>

function dedup_first :: "string list \<Rightarrow> string list" where
  "dedup_first [] = []"
| "dedup_first (x # xs) = x # dedup_first (removeAll x xs)"
  by pat_completeness auto
termination
  by (relation "measure length") (auto simp: less_Suc_eq_le length_removeAll_less_eq)

definition merged_spec :: "string list \<Rightarrow> annotation_dict \<Rightarrow> annotation_dict" where
  "merged_spec recovered current =
     current @ dedup_first (filter (\<lambda>b. b \<notin> set current) recovered)"

text \<open>
  The written file in the words of the specification. The last-parenthesis rule: with
  the last \<open>(\<close> at index \<open>i\<close> and the last \<open>)\<close> at index \<open>k\<close>, if \<open>0 < i < k\<close> the title
  is the trimmed text before index \<open>i\<close> and the author the trimmed text strictly between
  \<open>i\<close> and \<open>k\<close>; otherwise the title is the trimmed header and the author is empty. The
  file is the line \<open>title, author\<close>, a blank line, and each block followed by a blank line.
\<close>

fun last_index :: "char \<Rightarrow> string \<Rightarrow> nat option" where
  "last_index c [] = None"
| "last_index c (x # xs) =
     (case last_index c xs of
        Some i \<Rightarrow> Some (Suc i)
      | None \<Rightarrow> if x = c then Some 0 else None)"

definition title_author_spec :: "string \<Rightarrow> string \<times> string" where
  "title_author_spec header =
     (case (last_index CHR ''('' header, last_index CHR '')'' header) of
        (Some i, Some k) \<Rightarrow>
          if 0 < i \<and> i < k
          then (strip (take i header), strip (take (k - i - 1) (drop (i + 1) header)))
          else (strip header, [])
      | _ \<Rightarrow> (strip header, []))"

definition written_spec :: "string \<Rightarrow> string list \<Rightarrow> string" where
  "written_spec header blocks =
     (case title_author_spec header of
        (title, author) \<Rightarrow>
          title @ '', '' @ author @ [LF] @ [LF] @ concat (map (\<lambda>block. block @ [LF]) blocks))"

text \<open>
  The blocks that the round trip through the output file is stated for. The file holds
  the lines of each block followed by an empty line. A plain block is a canonical block
  without a blank line (a line of whitespace only) and without a line boundary character
  of \<open>str.splitlines\<close> other than the line feed; the empty block is the canonical form of
  an annotation without text.
\<close>

definition block_lines :: "string \<Rightarrow> string list" where
  "block_lines b = split LF (butlast b)"

definition plain_block :: "string \<Rightarrow> bool" where
  "plain_block b \<longleftrightarrow>
     normalize_block b = b
     \<and> list_all (\<lambda>c. c = LF \<or> \<not> is_linebreak c) b
     \<and> list_all (\<lambda>line. strip line \<noteq> []) (block_lines b)"

definition plain_or_empty :: "string \<Rightarrow> bool" where
  "plain_or_empty b \<longleftrightarrow> b = [LF] \<or> plain_block b"

text \<open>
  The text of a list of lines, each followed by a line feed, and the lines that the
  Writer puts after the title line and the blank line below it.
\<close>

definition unlines :: "string list \<Rightarrow> string" where
  "unlines ls = concat (map (\<lambda>l. l @ [LF]) ls)"

definition body_lines :: "string list \<Rightarrow> string list" where
  "body_lines d = concat (map (\<lambda>b. block_lines b @ [[]]) d)"

section \<open>Properties of normalization\<close>

lemma isspace_LF: "isspace LF"
  by (simp add: isspace_def LF_def)

lemma rstrip_rstrip: "rstrip (rstrip s) = rstrip s"
proof -
  have "dropWhile isspace (dropWhile isspace (rev s)) = dropWhile isspace (rev s)"
    by (rule dropWhile_idem)
  then show ?thesis by (simp add: rstrip_def)
qed

lemma rstrip_append_space: "isspace c \<Longrightarrow> rstrip (s @ [c]) = rstrip s"
  by (simp add: rstrip_def)

lemma rstrip_normalize_block: "rstrip (normalize_block s) = rstrip s"
  by (simp add: normalize_block_def NEW_LINE_def rstrip_append_space isspace_LF rstrip_rstrip)

lemma rstrip_no_trailing_space: "rstrip s \<noteq> [] \<Longrightarrow> \<not> isspace (last (rstrip s))"
proof (cases "dropWhile isspace (rev s)")
  case Nil
  assume "rstrip s \<noteq> []"
  with Nil show ?thesis by (simp add: rstrip_def)
next
  case (Cons x xs)
  then have "\<not> isspace x" by (metis hd_dropWhile list.sel(1) list.distinct(1))
  with Cons show ?thesis by (simp add: rstrip_def)
qed

lemma normalize_block_idem: "normalize_block (normalize_block s) = normalize_block s"
  unfolding normalize_block_def [of "normalize_block s"] rstrip_normalize_block
  by (simp add: normalize_block_def)

lemma normalize_block_newline: "normalize_block [LF] = [LF]"
  by (simp add: normalize_block_def rstrip_def isspace_LF NEW_LINE_def)

text \<open>
  Claim C4. Normalization is idempotent: for every string \<open>s\<close>, normalizing the
  normalized string gives the normalized string again, where normalization strips all
  trailing whitespace and line terminators and appends exactly one line terminator.
\<close>

theorem normalize_block_idempotent:
  "normalize_block (normalize_block s) = normalize_block s"
  unfolding normalize_block_def [of "normalize_block s"] rstrip_normalize_block
  by (simp add: normalize_block_def)

section \<open>Properties of the block reader\<close>

lemma read_block_loop_spec:
  "read_block_loop annotation infile = (a, r) \<Longrightarrow>
     a = annotation @ concat (map contribution_amended (takeWhile (\<lambda>line. \<not> is_separator line) (readlines infile)))
     \<and> readlines r = drop 1 (dropWhile (\<lambda>line. \<not> is_separator line) (readlines infile))"
proof (induction annotation infile arbitrary: a r rule: read_block_loop.induct)
  case (1 annotation infile)
  obtain l r' where lr: "readline infile = (l, r')" by force
  show ?case
  proof (cases "l = []")
    case True
    with lr have "r' = []" by (cases infile) (auto split: if_splits prod.splits)
    with True lr "1.prems" show ?thesis
      by (simp add: read_block_loop.simps [of annotation infile] readlines.simps [of infile]
          readlines.simps [of "[]"])
  next
    case False
    note ne = this
    show ?thesis
    proof (cases "strip l = separator")
      case True
      with lr ne "1.prems" show ?thesis
        by (simp add: read_block_loop.simps [of annotation infile] readlines.simps [of infile]
            is_separator_def)
    next
      case False
      from ne False have c: "\<not> (l = [] \<or> strip l = separator)" by simp
      show ?thesis
      proof (cases "rstrip_chars [CR, LF] l = []")
        case True
        with lr c "1.prems" have "read_block_loop (annotation @ rstrip_chars [CR, LF] l) r' = (a, r)"
          by (simp add: read_block_loop.simps [of annotation infile])
        from "1.IH"(1) [OF lr [symmetric] c refl True this] True lr ne False
        show ?thesis
          by (simp add: readlines.simps [of infile] is_separator_def contribution_amended_def
              is_empty_line_def)
      next
        case F2: False
        with lr c "1.prems"
        have "read_block_loop (annotation @ rstrip_chars [CR, LF] l @ NEW_LINE) r' = (a, r)"
          by (simp add: read_block_loop.simps [of annotation infile])
        from "1.IH"(2) [OF lr [symmetric] c refl F2 this] F2 lr ne False
        show ?thesis
          by (simp add: readlines.simps [of infile] is_separator_def contribution_amended_def
              is_empty_line_def)
      qed
    qed
  qed
qed

text \<open>
  Claim C6 says that, up to the first separator line or the end of the stream, a blank
  line contributes nothing to the raw block. \<open>_read_block\<close> tests
  \<open>current_line == ""\<close> after \<open>rstrip('\r\n')\<close>, so a line of whitespace only is blank and
  yet contributes itself and a line terminator: after the lines \<open>a\<close>, two spaces, \<open>b\<close>
  and a separator, the raw block holds the line of two spaces, where the claimed rule
  leaves it out.
\<close>

theorem read_block_blank_line:
  "readlines ''a\<newline>  \<newline>b\<newline>==========\<newline>'' =
     [''a\<newline>'', ''  \<newline>'', ''b\<newline>'', ''==========\<newline>'']
   \<and> is_blank ''  \<newline>''
   \<and> fst (read_block ''a\<newline>  \<newline>b\<newline>==========\<newline>'') = ''a\<newline>  \<newline>b\<newline>\<newline>''
   \<and> raw_block_claimed (readlines ''a\<newline>  \<newline>b\<newline>==========\<newline>'') = ''a\<newline>b\<newline>\<newline>''
   \<and> fst (read_block ''a\<newline>  \<newline>b\<newline>==========\<newline>'')
       \<noteq> raw_block_claimed (readlines ''a\<newline>  \<newline>b\<newline>==========\<newline>'')"
  by code_simp

text \<open>
  Claim C6, amended. At every position of the input stream, the raw block that the Reader
  accumulates is the concatenation, over the following lines up to (and excluding) the
  first separator line (a line equal to \<open>==========\<close> once surrounding whitespace is
  stripped) or the end of the stream, of nothing for an empty line (a line with nothing
  but its line terminator) and of the line plus one line terminator for every other line,
  a line of whitespace only included, followed by one more line terminator; reading
  resumes after the separator line.
\<close>

theorem read_block_accumulates:
  "fst (read_block infile) = raw_block_amended (readlines infile)
   \<and> readlines (snd (read_block infile)) =
       drop 1 (dropWhile (\<lambda>line. \<not> is_separator line) (readlines infile))"
proof -
  obtain a r where ar: "read_block_loop [] infile = (a, r)" by force
  from read_block_loop_spec [OF ar] ar show ?thesis
    by (simp add: read_block_def raw_block_amended_def)
qed

section \<open>Properties of the Reader\<close>

text \<open>
  Claim C7. When a header line becomes empty after stripping its line terminator and
  dropping a leading character that is not alphanumeric, the Reader skips it without
  consuming any following line: reading goes on at the very next line, which is taken as
  a header, and no block is read for the skipped header.
\<close>

theorem invalid_header_skipped:
  assumes "readline infile = (header_line, infile')"
      and "header_line \<noteq> []"
      and "clean_header header_line = []"
  shows "read_loop bks infile = read_loop bks infile'"
  using assms by (simp add: read_loop.simps [of bks infile])


theorem invalid_header_skipped_witness:
  "readline ''-\<newline>highlight\<newline>==========\<newline>Book\<newline>h2\<newline>==========\<newline>''
     = (''-\<newline>'', ''highlight\<newline>==========\<newline>Book\<newline>h2\<newline>==========\<newline>'')
   \<and> clean_header ''-\<newline>'' = []
   \<and> read_loop [] ''-\<newline>highlight\<newline>==========\<newline>Book\<newline>h2\<newline>==========\<newline>''
     = read_loop [] ''highlight\<newline>==========\<newline>Book\<newline>h2\<newline>==========\<newline>''
   \<and> read_loop [] ''highlight\<newline>==========\<newline>Book\<newline>h2\<newline>==========\<newline>''
     = [(''highlight'', [''\<newline>'']), (''Book'', [''h2\<newline>''])]"
proof -
  have h1: "readline ''-\<newline>highlight\<newline>==========\<newline>Book\<newline>h2\<newline>==========\<newline>''
     = (''-\<newline>'', ''highlight\<newline>==========\<newline>Book\<newline>h2\<newline>==========\<newline>'')"
    by code_simp
  have h2: "''-\<newline>'' \<noteq> []" by simp
  have h3: "clean_header ''-\<newline>'' = []" by code_simp
  have h4: "read_loop [] ''highlight\<newline>==========\<newline>Book\<newline>h2\<newline>==========\<newline>''
     = [(''highlight'', [''\<newline>'']), (''Book'', [''h2\<newline>''])]"
    by code_simp
  from invalid_header_skipped [OF h1 h2 h3, of "[]"] h1 h3 h4 show ?thesis by simp
qed





section \<open>Duplicate freedom\<close>

lemma block_inv_alt: "block_inv d \<longleftrightarrow> distinct d \<and> (\<forall>b\<in>set d. normalize_block b = b)"
proof (cases "\<forall>b\<in>set d. normalize_block b = b")
  case True
  then have "map normalize_block d = d" by (simp add: map_idI)
  with True show ?thesis by (simp add: block_inv_def list_all_iff)
next
  case False
  then show ?thesis by (auto simp: block_inv_def list_all_iff)
qed

lemma setdefault_inv: "block_inv d \<Longrightarrow> block_inv (setdefault d (normalize_block b))"
  by (auto simp: block_inv_alt setdefault_def normalize_block_idem)

lemma dict_get_inv: "book_inv bks \<Longrightarrow> dict_get bks k = Some d \<Longrightarrow> block_inv d"
  by (induction bks) (auto simp: book_inv_def split: if_splits)

lemma dict_set_inv: "book_inv bks \<Longrightarrow> block_inv v \<Longrightarrow> book_inv (dict_set bks k v)"
  by (induction bks) (auto simp: book_inv_def)

lemma dict_get_dict_set: "dict_get (dict_set bks k v) k = Some v"
  by (induction bks) auto

lemma dict_set_same: "dict_get bks k = Some v \<Longrightarrow> dict_set bks k v = bks"
  by (induction bks) (auto split: if_splits)

lemma block_inv_Nil: "block_inv []"
  by (simp add: block_inv_def)

lemma add_block_inv:
  assumes "book_inv bks"
  shows "book_inv (add_block bks h (normalize_block a))"
proof (cases "dict_get bks h")
  case None
  have "book_inv (dict_set bks h [])"
    using assms block_inv_Nil by (rule dict_set_inv)
  moreover have "block_inv (setdefault [] (normalize_block a))"
    using block_inv_Nil by (rule setdefault_inv)
  ultimately show ?thesis
    using None by (simp add: add_block_def dict_get_dict_set dict_set_inv)
next
  case (Some d)
  then have "block_inv d" using assms by (auto dest: dict_get_inv)
  then have "block_inv (setdefault d (normalize_block a))" by (rule setdefault_inv)
  with assms Some show ?thesis by (simp add: add_block_def dict_set_inv)
qed

lemma add_block_present:
  "dict_get bks h = Some d \<Longrightarrow> b \<in> set d \<Longrightarrow> add_block bks h b = bks"
  by (simp add: add_block_def setdefault_def dict_set_same)

lemma read_loop_inv: "book_inv bks \<Longrightarrow> book_inv (read_loop bks infile)"
proof (induction bks infile rule: read_loop.induct)
  case (1 bks infile)
  obtain l r where lr: "readline infile = (l, r)" by force
  show ?case
  proof (cases "l = []")
    case True
    with lr "1.prems" show ?thesis by (simp add: read_loop.simps [of bks infile])
  next
    case ne: False
    show ?thesis
    proof (cases "clean_header l = []")
      case True
      with lr ne "1.prems" "1.IH"(1) [OF lr [symmetric] ne refl True]
      show ?thesis by (simp add: read_loop.simps [of bks infile])
    next
      case False
      obtain a r' where ar: "read_block r = (a, r')" by force
      have "book_inv (add_block bks (clean_header l) (normalize_block a))"
        using "1.prems" by (rule add_block_inv)
      from "1.IH"(2) [OF lr [symmetric] ne refl False ar [symmetric] this] lr ne False ar
      show ?thesis by (simp add: read_loop.simps [of bks infile])
    qed
  qed
qed

lemma merge_loop_inv: "block_inv d \<Longrightarrow> block_inv (merge_loop old d)"
  by (induction old arbitrary: d) (auto intro: setdefault_inv)

lemma merge_with_existing_inv: "block_inv d \<Longrightarrow> block_inv (merge_with_existing content d)"
  by (simp add: merge_with_existing_def merge_loop_inv)

lemma write_book_inv: "block_inv d \<Longrightarrow> block_inv (fst (write_book hash out merge h d fs))"
  by (auto simp: write_book_def Let_def merge_with_existing_inv split: prod.splits)

lemma write_loop_inv: "book_inv bks \<Longrightarrow> book_inv (fst (write_loop hash out merge bks fs))"
proof (induction bks arbitrary: fs)
  case Nil
  then show ?case by (simp add: book_inv_def)
next
  case (Cons p bks)
  obtain h d where p: "p = (h, d)" by force
  obtain d' fs' where wb: "write_book hash out merge h d fs = (d', fs')" by force
  obtain bks' fs'' where wl: "write_loop hash out merge bks fs' = (bks', fs'')" by force
  from Cons.prems p have "block_inv d" and rest: "book_inv bks" by (auto simp: book_inv_def)
  then have "block_inv d'" using write_book_inv [of d hash out merge h fs] wb by simp
  moreover from Cons.IH [OF rest, of fs'] wl have "book_inv bks'" by simp
  ultimately show ?case using p wb wl by (simp add: book_inv_def)
qed

text \<open>
  Claim C5. Duplicate freedom is an invariant: after any sequence of Reader insertions
  and Merger insertions, no two blocks stored for a book are equal after normalization
  (and each is canonical); inserting a block that is already present leaves the set
  unchanged, so each block stays at the position of its first occurrence.
\<close>

theorem duplicate_freedom:
  assumes "book_inv bks"
  shows "book_inv (add_block bks h (normalize_block a))
         \<and> book_inv (read_loop bks infile)
         \<and> book_inv (fst (write_loop hash out merge bks fs))
         \<and> (dict_get bks h' = Some d \<and> b \<in> set d \<longrightarrow> add_block bks h' b = bks)
         \<and> (b \<in> set d \<longrightarrow> setdefault d b = d)"
  using assms
  by (simp add: add_block_inv read_loop_inv write_loop_inv add_block_present setdefault_def)

theorem duplicate_freedom_witness:
  "book_inv [(''Book'', [''hi\<newline>''])]
   \<and> book_inv (read_loop [(''Book'', [''hi\<newline>''])] ''Book\<newline>hi  \<newline>==========\<newline>Book\<newline>yo\<newline>==========\<newline>'')
   \<and> read_loop [(''Book'', [''hi\<newline>''])] ''Book\<newline>hi  \<newline>==========\<newline>Book\<newline>yo\<newline>==========\<newline>''
       = [(''Book'', [''hi\<newline>'', ''yo\<newline>''])]
   \<and> dict_get [(''Book'', [''hi\<newline>''])] ''Book'' = Some [''hi\<newline>'']
   \<and> add_block [(''Book'', [''hi\<newline>''])] ''Book'' ''hi\<newline>'' = [(''Book'', [''hi\<newline>''])]
   \<and> setdefault [''hi\<newline>''] ''hi\<newline>'' = [''hi\<newline>'']"
proof -
  have h: "book_inv [(''Book'', [''hi\<newline>''])]" by code_simp
  have e: "read_loop [(''Book'', [''hi\<newline>''])] ''Book\<newline>hi  \<newline>==========\<newline>Book\<newline>yo\<newline>==========\<newline>''
       = [(''Book'', [''hi\<newline>'', ''yo\<newline>''])]" by code_simp
  from duplicate_freedom [OF h, of "''Book''" "[]"
      "''Book\<newline>hi  \<newline>==========\<newline>Book\<newline>yo\<newline>==========\<newline>''"
      "\<lambda>_. 0" "[]" False Map.empty "''Book''" "[''hi\<newline>'']" "''hi\<newline>''"] h e
  show ?thesis by simp
qed

section \<open>Merging\<close>

lemma filter_snoc_removeAll:
  "filter (\<lambda>b. b \<notin> set (d @ [x])) xs = removeAll x (filter (\<lambda>b. b \<notin> set d) xs)"
  by (induction xs) auto

lemma merge_loop_spec: "merge_loop old d = merged_spec (map normalize_block old) d"
proof (induction old arbitrary: d)
  case Nil
  then show ?case by (simp add: merged_spec_def)
next
  case (Cons b old)
  show ?case
  proof (cases "normalize_block b \<in> set d")
    case True
    with Cons.IH [of d] show ?thesis by (simp add: setdefault_def merged_spec_def)
  next
    case False
    with Cons.IH [of "d @ [normalize_block b]"] show ?thesis
      by (simp add: setdefault_def merged_spec_def filter_snoc_removeAll del: set_append)
  qed
qed

text \<open>
  Claim C2. For every content of an existing output file and every ordered block set of
  the current run, merging yields all blocks of the current run first, in their order,
  followed by the blocks recovered from the prior file that are not already present, in
  their original relative order, each duplicate collapsed to its first occurrence;
  blocks already in the set are neither removed nor reordered. That merged set is
  written when merge mode is active and the file exists; otherwise (overwrite mode, or no
  prior file) exactly the current run's blocks are written.
\<close>

theorem merge_order:
  "merge_with_existing content d =
     merged_spec (map normalize_block (read_existing_blocks content)) d
   \<and> take (length d) (merge_with_existing content d) = d
   \<and> write_book hash out merge h d fs =
       (let p = path_join out (output_filename hash h);
            d' = (if merge \<and> fs p \<noteq> None
                  then merged_spec (map normalize_block
                         (read_existing_blocks (universal_newlines (the (fs p))))) d
                  else d)
        in (d', fs(p \<mapsto> file_text (fst (get_title_author h)) (snd (get_title_author h)) d')))
   \<and> write_book hash out False h d fs =
       (d, fs(path_join out (output_filename hash h) \<mapsto>
              file_text (fst (get_title_author h)) (snd (get_title_author h)) d))"
  by (auto simp: merge_with_existing_def merge_loop_spec merged_spec_def write_book_def Let_def
      open_read_def split: prod.splits)

theorem merge_order_witness:
  "merge_with_existing ''T, A\<newline>\<newline>old\<newline>\<newline>new\<newline>\<newline>old\<newline>\<newline>'' [''new\<newline>'']
     = [''new\<newline>'', ''old\<newline>'']
   \<and> fst (write_book (\<lambda>_. 7) ''out'' True ''T (A)'' [''new\<newline>'']
            [''out/T_7.txt'' \<mapsto> ''T, A\<newline>\<newline>old\<newline>\<newline>''])
     = [''new\<newline>'', ''old\<newline>'']
   \<and> snd (write_book (\<lambda>_. 7) ''out'' True ''T (A)'' [''new\<newline>'']
            [''out/T_7.txt'' \<mapsto> ''T, A\<newline>\<newline>old\<newline>\<newline>'']) ''out/T_7.txt''
     = Some ''T, A\<newline>\<newline>new\<newline>\<newline>old\<newline>\<newline>''
   \<and> snd (write_book (\<lambda>_. 7) ''out'' False ''T (A)'' [''new\<newline>'']
            [''out/T_7.txt'' \<mapsto> ''T, A\<newline>\<newline>old\<newline>\<newline>'']) ''out/T_7.txt''
     = Some ''T, A\<newline>\<newline>new\<newline>\<newline>''"
proof -
  have a: "merged_spec (map normalize_block
             (read_existing_blocks ''T, A\<newline>\<newline>old\<newline>\<newline>new\<newline>\<newline>old\<newline>\<newline>'')) [''new\<newline>'']
           = [''new\<newline>'', ''old\<newline>'']"
    by code_simp
  have b: "fst (write_book (\<lambda>_. 7) ''out'' True ''T (A)'' [''new\<newline>'']
            [''out/T_7.txt'' \<mapsto> ''T, A\<newline>\<newline>old\<newline>\<newline>''])
     = [''new\<newline>'', ''old\<newline>'']"
    by code_simp
  have c: "snd (write_book (\<lambda>_. 7) ''out'' True ''T (A)'' [''new\<newline>'']
            [''out/T_7.txt'' \<mapsto> ''T, A\<newline>\<newline>old\<newline>\<newline>'']) ''out/T_7.txt''
     = Some ''T, A\<newline>\<newline>new\<newline>\<newline>old\<newline>\<newline>''"
    by code_simp
  have d: "snd (write_book (\<lambda>_. 7) ''out'' False ''T (A)'' [''new\<newline>'']
            [''out/T_7.txt'' \<mapsto> ''T, A\<newline>\<newline>old\<newline>\<newline>'']) ''out/T_7.txt''
     = Some ''T, A\<newline>\<newline>new\<newline>\<newline>''"
    by code_simp
  from merge_order [of "''T, A\<newline>\<newline>old\<newline>\<newline>new\<newline>\<newline>old\<newline>\<newline>''" "[''new\<newline>'']"
      "\<lambda>_. 7" "''out''" True "''T (A)''" Map.empty] a b c d
  show ?thesis by simp
qed

section \<open>Missing input\<close>

text \<open>
  Claim C9. If the input path names no existing file, \<open>parse\<close> raises
  \<open>FileNotFoundError\<close> before producing any output: the file system is unchanged (no
  output file is created or modified) and the parser's book mapping stays empty.
\<close>

theorem missing_input_not_found:
  assumes "fs inp = None"
  shows "parse hash (init inp out merge) fs = (Some FileNotFoundError, init inp out merge, fs)
         \<and> books (init inp out merge) = []
         \<and> number_of_books (init inp out merge) = 0"
  using assms by (simp add: parse_def read_def open_read_def init_def number_of_books_def)

theorem missing_input_not_found_witness:
  "[''out/T_7.txt'' \<mapsto> ''T, A\<newline>''] ''My Clippings.txt'' = None
   \<and> parse (\<lambda>_. 7) (init ''My Clippings.txt'' ''out'' True) [''out/T_7.txt'' \<mapsto> ''T, A\<newline>'']
     = (Some FileNotFoundError, init ''My Clippings.txt'' ''out'' True,
        [''out/T_7.txt'' \<mapsto> ''T, A\<newline>''])
   \<and> books (init ''My Clippings.txt'' ''out'' True) = []"
proof -
  have h: "[''out/T_7.txt'' \<mapsto> ''T, A\<newline>''] ''My Clippings.txt'' = None" by simp
  from h missing_input_not_found [of "[''out/T_7.txt'' \<mapsto> ''T, A\<newline>'']" "''My Clippings.txt''"
      "\<lambda>_. 7" "''out''" True]
  show ?thesis by simp
qed

section \<open>The written file\<close>

lemma last_index_None: "last_index c s = None \<longleftrightarrow> c \<notin> set s"
  by (induction s) (auto split: option.splits)

lemma last_index_Some:
  "last_index c s = Some i \<longleftrightarrow>
     i < length s \<and> s ! i = c \<and> (\<forall>j. i < j \<and> j < length s \<longrightarrow> s ! j \<noteq> c)"
proof (induction s arbitrary: i)
  case Nil
  then show ?case by simp
next
  case (Cons x xs)
  show ?case
  proof (cases "last_index c xs")
    case None
    then have notin: "c \<notin> set xs" by (simp add: last_index_None)
    then have no: "\<And>j. j < length xs \<Longrightarrow> xs ! j \<noteq> c" by (metis nth_mem)
    show ?thesis
    proof (cases i)
      case 0
      with None no show ?thesis by (auto simp: nth_Cons split: nat.splits)
    next
      case (Suc i')
      with None notin show ?thesis by (auto simp: nth_Cons split: nat.splits)
    qed
  next
    case (Some k)
    with Cons.IH [of k] have k: "k < length xs" "xs ! k = c"
      and kmax: "\<And>j. k < j \<Longrightarrow> j < length xs \<Longrightarrow> xs ! j \<noteq> c" by auto
    show ?thesis
    proof (cases i)
      case 0
      have "\<not> (\<forall>j. 0 < j \<and> j < length (x # xs) \<longrightarrow> (x # xs) ! j \<noteq> c)"
        using k by (auto intro!: exI [of _ "Suc k"])
      with 0 Some show ?thesis by simp
    next
      case (Suc i')
      with Some Cons.IH [of i'] show ?thesis
        by (auto simp: nth_Cons split: nat.splits)
    qed
  qed
qed

lemma rfind_last_index:
  "rfind c s = (case last_index c s of None \<Rightarrow> - 1 | Some i \<Rightarrow> int i)"
proof (induction s)
  case Nil
  then show ?case by (simp add: rfind_def)
next
  case (Cons x xs)
  show ?case
  proof (cases "c \<in> set xs")
    case True
    then have "takeWhile (\<lambda>y. y \<noteq> c) (rev xs @ [x]) = takeWhile (\<lambda>y. y \<noteq> c) (rev xs)"
      by (intro takeWhile_append1 [of c]) auto
    moreover from True obtain i where "last_index c xs = Some i"
      using last_index_None [of c xs] by (cases "last_index c xs") auto
    ultimately show ?thesis using True Cons.IH by (simp add: rfind_def)
  next
    case False
    then have "takeWhile (\<lambda>y. y \<noteq> c) (rev xs @ [x]) = rev xs @ takeWhile (\<lambda>y. y \<noteq> c) [x]"
      by (intro takeWhile_append2) auto
    then have len: "length (takeWhile (\<lambda>y. y \<noteq> c) (rev xs @ [x]))
        = length xs + (if x = c then 0 else 1)"
      by simp
    from False have li: "last_index c xs = None" by (simp add: last_index_None)
    show ?thesis
    proof (cases "x = c")
      case True
      with len li show ?thesis by (simp add: rfind_def)
    next
      case ne: False
      with False li show ?thesis by (simp add: rfind_def)
    qed
  qed
qed

lemma nat_int_Suc: "nat (int n + 1) = Suc n"
  by simp

lemma get_title_author_spec: "get_title_author h = title_author_spec h"
  by (auto simp: get_title_author_def title_author_spec_def rfind_last_index slice_def Let_def nat_int_Suc
      split: option.splits)

text \<open>
  Claim C8. For every header and ordered block set, the content written to the book's
  file is the first line \<open>title, author\<close>, with title and author derived from the header
  by the last-parenthesis rule, then one blank line, then each block of the (merged) set
  in order, each followed by one blank line.
\<close>

theorem written_file:
  "snd (write_book hash out merge h d fs) (path_join out (output_filename hash h))
     = Some (written_spec h (fst (write_book hash out merge h d fs)))
   \<and> get_title_author h = title_author_spec h"
  by (auto simp: write_book_def Let_def written_spec_def file_text_def get_title_author_spec
      split: prod.splits)

theorem written_file_witness:
  "snd (write_book (\<lambda>_. 7) ''out'' True ''My Book (Jane Doe)'' [''This is a highlight.\<newline>'']
         Map.empty) ''out/My Book_7.txt''
     = Some ''My Book, Jane Doe\<newline>\<newline>This is a highlight.\<newline>\<newline>''
   \<and> get_title_author ''My Book (Jane Doe)'' = (''My Book'', ''Jane Doe'')
   \<and> get_title_author ''(x) My Book'' = (''(x) My Book'', [])
   \<and> get_title_author ''a (b) (c'' = (''a (b) (c'', [])"
proof -
  have p: "path_join ''out'' (output_filename (\<lambda>_. 7) ''My Book (Jane Doe)'') = ''out/My Book_7.txt''"
    by code_simp
  have d: "fst (write_book (\<lambda>_. 7) ''out'' True ''My Book (Jane Doe)''
             [''This is a highlight.\<newline>''] Map.empty) = [''This is a highlight.\<newline>'']"
    by code_simp
  have w: "written_spec ''My Book (Jane Doe)'' [''This is a highlight.\<newline>'']
      = ''My Book, Jane Doe\<newline>\<newline>This is a highlight.\<newline>\<newline>''"
    by code_simp
  have t1: "title_author_spec ''My Book (Jane Doe)'' = (''My Book'', ''Jane Doe'')" by code_simp
  have t2: "title_author_spec ''(x) My Book'' = (''(x) My Book'', [])" by code_simp
  have t3: "title_author_spec ''a (b) (c'' = (''a (b) (c'', [])" by code_simp
  from written_file [of "\<lambda>_. 7" "''out''" True "''My Book (Jane Doe)''"
      "[''This is a highlight.\<newline>'']" Map.empty]
    written_file [of "\<lambda>_. 7" "''out''" True "''(x) My Book''" "[]" Map.empty]
    written_file [of "\<lambda>_. 7" "''out''" True "''a (b) (c''" "[]" Map.empty]
    p d w t1 t2 t3
  show ?thesis by simp
qed

section \<open>The output file name\<close>

lemma digit_char_inj: "a < 10 \<Longrightarrow> b < 10 \<Longrightarrow> digit_char a = digit_char b \<Longrightarrow> a = b"
proof -
  assume a: "a < 10" and b: "b < 10" and eq: "digit_char a = digit_char b"
  from eq have "of_char (char_of (48 + a) :: char) = (of_char (char_of (48 + b) :: char) :: nat)"
    by (simp add: digit_char_def)
  with a b show ?thesis by (simp add: of_char_of)
qed

lemma digit_char_not_minus: "d < 10 \<Longrightarrow> digit_char d \<noteq> CHR ''-''"
proof
  assume d: "d < 10" and eq: "digit_char d = CHR ''-''"
  from eq have "(of_char (char_of (48 + d) :: char) :: nat) = of_char CHR ''-''"
    by (simp add: digit_char_def)
  with d show False by (simp add: of_char_of)
qed

lemma str_nat_snoc: "str_nat n = (if n < 10 then [] else str_nat (n div 10)) @ [digit_char (n mod 10)]"
  by (subst str_nat.simps) simp

lemma str_nat_inj: "str_nat n = str_nat m \<Longrightarrow> n = m"
proof (induction n arbitrary: m rule: str_nat.induct)
  case (1 n)
  from "1.prems" have eq:
    "(if n < 10 then [] else str_nat (n div 10)) @ [digit_char (n mod 10)]
     = (if m < 10 then [] else str_nat (m div 10)) @ [digit_char (m mod 10)]"
    using str_nat_snoc [of n] str_nat_snoc [of m] by simp
  then have d: "n mod 10 = m mod 10"
    by (auto dest!: digit_char_inj [rotated 2])
  have ne: "\<And>k. str_nat k \<noteq> []" by (subst str_nat.simps) simp
  then have ne': "\<And>k. [] \<noteq> str_nat k" by (metis)
  from eq have pre: "(if n < 10 then [] else str_nat (n div 10)) = (if m < 10 then [] else str_nat (m div 10))"
    by simp
  show ?case
  proof (cases "n < 10")
    case True
    with pre ne ne' have "m < 10" by (auto split: if_splits)
    with True d show ?thesis by simp
  next
    case False
    with pre ne ne' have m: "\<not> m < 10" by (auto split: if_splits)
    with False pre have "str_nat (n div 10) = str_nat (m div 10)" by simp
    with "1.IH" False have "n div 10 = m div 10" by simp
    with d show ?thesis by (metis div_mult_mod_eq)
  qed
qed

lemma str_nat_hd: "hd (str_nat n) \<noteq> CHR ''-''"
proof (induction n rule: str_nat.induct)
  case (1 n)
  have ne: "\<And>k. str_nat k \<noteq> []" by (subst str_nat.simps) simp
  show ?case
  proof (cases "n < 10")
    case True
    then show ?thesis by (subst str_nat.simps) (simp add: digit_char_not_minus)
  next
    case False
    with "1.IH" ne [of "n div 10"] show ?thesis by (subst str_nat.simps) simp
  qed
qed

lemma str_int_inj: "str_int a = str_int b \<Longrightarrow> a = b"
proof -
  assume eq: "str_int a = str_int b"
  have ne: "\<And>k. str_nat k \<noteq> []" by (subst str_nat.simps) simp
  have nm: "\<And>k l. CHR ''-'' # str_nat k \<noteq> str_nat l"
    using str_nat_hd ne by (metis list.sel(1))
  show ?thesis
  proof (cases "a < 0")
    case True
    with eq nm have "b < 0" by (auto simp: str_int_def split: if_splits)
    with True eq have "nat (- a) = nat (- b)" by (auto simp: str_int_def dest: str_nat_inj)
    with True \<open>b < 0\<close> show ?thesis by simp
  next
    case False
    with eq nm have "\<not> b < 0" by (auto simp: str_int_def split: if_splits) (metis)
    with False eq have "nat a = nat b" by (auto simp: str_int_def dest: str_nat_inj)
    with False \<open>\<not> b < 0\<close> show ?thesis by simp
  qed
qed

lemma digit_chars:
  "digit_char 0 = CHR ''0''" "digit_char 1 = CHR ''1''" "digit_char 2 = CHR ''2''"
  "digit_char 3 = CHR ''3''" "digit_char 4 = CHR ''4''" "digit_char 5 = CHR ''5''"
  "digit_char 6 = CHR ''6''" "digit_char 7 = CHR ''7''" "digit_char 8 = CHR ''8''"
  "digit_char 9 = CHR ''9''" "digit_char (Suc 0) = CHR ''1''"
  by (code_simp)+

lemma str_nat_numeral:
  "str_nat (numeral k) =
     (if (numeral k :: nat) < 10 then [digit_char (numeral k)]
      else str_nat (numeral k div 10) @ [digit_char (numeral k mod 10)])"
  by (rule str_nat.simps)

text \<open>
  Claim C1. The output file name of a header is the same in two invocations, whatever
  the per-process state. The Writer takes the name from \<open>str(hash(raw_header))\<close>, and the
  built-in \<open>hash\<close> of a string is keyed by a secret that the interpreter draws at start:
  two processes give a header the same file name exactly when their hash functions agree
  on it. CPython 3.11 gives the header \<open>My Book (Jane Doe)\<close> the hash 8037979468185896420
  under \<open>PYTHONHASHSEED=0\<close> and 6525251576359423399 under \<open>PYTHONHASHSEED=1\<close>, hence two
  different file names.
\<close>

theorem filename_follows_hash:
  "(output_filename hash1 raw_header = output_filename hash2 raw_header
      \<longleftrightarrow> hash1 raw_header = hash2 raw_header)
   \<and> output_filename (\<lambda>_. 8037979468185896420) ''My Book (Jane Doe)''
       = ''My Book_8037979468185896420.txt''
   \<and> output_filename (\<lambda>_. 6525251576359423399) ''My Book (Jane Doe)''
       = ''My Book_6525251576359423399.txt''"
proof -
  have "output_filename hash1 raw_header = output_filename hash2 raw_header
          \<longleftrightarrow> hash1 raw_header = hash2 raw_header"
    by (auto simp: output_filename_def Let_def split: prod.splits dest: str_int_inj)
  moreover have "get_title_author ''My Book (Jane Doe)'' = (''My Book'', ''Jane Doe'')"
    by code_simp
  moreover have "take MAX_TITLE_LENGTH
       (filter (\<lambda>ch. isalnum ch \<or> ch \<in> set '' ._()-'') ''My Book'') = ''My Book''"
    by code_simp
  moreover have "str_int 8037979468185896420 = ''8037979468185896420''"
    by (simp add: str_int_def str_nat_numeral digit_chars)
  moreover have "str_int 6525251576359423399 = ''6525251576359423399''"
    by (simp add: str_int_def str_nat_numeral digit_chars)
  ultimately show ?thesis by (simp add: output_filename_def)
qed

section \<open>Round trip through the output file\<close>

lemma unlines_simps [simp]:
  "unlines [] = []" "unlines (l # ls) = l @ LF # unlines ls" "unlines (xs @ ys) = unlines xs @ unlines ys"
  by (simp_all add: unlines_def)

lemma is_linebreak_LF: "is_linebreak LF"
  by (simp add: is_linebreak_def LF_def)

lemma is_linebreak_CR: "is_linebreak CR"
  by (simp add: is_linebreak_def CR_def)

lemma LF_neq_CR: "LF \<noteq> CR"
  by (simp add: LF_def CR_def)

lemma universal_newlines_id: "CR \<notin> set s \<Longrightarrow> universal_newlines s = s"
  by (induction s rule: universal_newlines.induct) auto

lemma splitlines_line:
  "\<forall>c\<in>set l. \<not> is_linebreak c \<Longrightarrow> splitlines (l @ LF # rest) = l # splitlines rest"
  by (induction l) (auto simp: is_linebreak_LF LF_neq_CR)

lemma splitlines_unlines:
  "\<forall>l\<in>set ls. \<forall>c\<in>set l. \<not> is_linebreak c \<Longrightarrow> splitlines (unlines ls) = ls"
  by (induction ls) (auto simp: splitlines_line)

lemma split_not_Nil: "split sep s \<noteq> []"
  by (induction s) (auto split: list.splits)

lemma unlines_split: "unlines (split LF s) = s @ [LF]"
proof (induction s)
  case Nil
  then show ?case by simp
next
  case (Cons c cs)
  obtain l ls where sp: "split LF cs = l # ls"
    using split_not_Nil [of LF cs] by (cases "split LF cs") auto
  with Cons show ?case by auto
qed

lemma split_chars: "l \<in> set (split sep s) \<Longrightarrow> set l \<subseteq> set s - {sep}"
proof (induction s arbitrary: l)
  case Nil
  then show ?case by simp
next
  case (Cons c cs)
  obtain x xs where sp: "split sep cs = x # xs"
    using split_not_Nil [of sep cs] by (cases "split sep cs") auto
  show ?case
  proof (cases "c = sep")
    case True
    with Cons show ?thesis by auto
  next
    case False
    with Cons.prems sp have "l = c # x \<or> l \<in> set xs" by auto
    then show ?thesis
    proof
      assume "l = c # x"
      moreover have "set x \<subseteq> set cs - {sep}" using Cons.IH [of x] sp by simp
      ultimately show ?thesis using False by auto
    next
      assume "l \<in> set xs"
      then have "set l \<subseteq> set cs - {sep}" using Cons.IH [of l] sp by simp
      then show ?thesis by auto
    qed
  qed
qed

lemma split_line: "sep \<notin> set l \<Longrightarrow> split sep (l @ sep # rest) = l # split sep rest"
  by (induction l) auto

lemma split_single: "sep \<notin> set l \<Longrightarrow> split sep l = [l]"
  by (induction l) auto

lemma split_join:
  "ls \<noteq> [] \<Longrightarrow> \<forall>l\<in>set ls. sep \<notin> set l \<Longrightarrow> split sep (join [sep] ls) = ls"
  by (induction "[sep]" ls rule: join.induct) (auto simp: split_single split_line)

lemma join_unlines: "ls \<noteq> [] \<Longrightarrow> join NEW_LINE ls @ NEW_LINE = unlines ls"
  by (induction NEW_LINE ls rule: join.induct) (auto simp: NEW_LINE_def)

lemma strip_Nil: "strip [] = []"
  by (simp add: strip_def lstrip_def rstrip_def)

lemma split_loop_nonblank:
  "\<forall>l\<in>set ls. strip l \<noteq> [] \<Longrightarrow> split_loop (ls @ rest) blocks cur = split_loop rest blocks (cur @ ls)"
  by (induction ls arbitrary: cur) auto

lemma split_loop_blank_empty: "split_loop ([] # rest) blocks [] = split_loop rest blocks []"
  by (simp add: strip_Nil)

lemma split_loop_block:
  assumes "ls \<noteq> []" and "\<forall>l\<in>set ls. strip l \<noteq> []"
  shows "split_loop (ls @ [] # rest) blocks [] = split_loop rest (blocks @ [unlines ls]) []"
proof -
  have "split_loop (ls @ [] # rest) blocks [] = split_loop ([] # rest) blocks ls"
    using split_loop_nonblank [OF assms(2), of "[] # rest" blocks "[]"] by simp
  also have "\<dots> = split_loop rest (blocks @ [join NEW_LINE ls @ NEW_LINE]) []"
    using assms(1) by (simp add: strip_Nil)
  finally show ?thesis using assms(1) by (simp add: join_unlines)
qed

lemma normalized_ends: "normalize_block b = b \<Longrightarrow> b \<noteq> [] \<and> last b = LF"
  by (metis normalize_block_def NEW_LINE_def snoc_eq_iff_butlast last_snoc)

lemma unlines_block_lines: "normalize_block b = b \<Longrightarrow> unlines (block_lines b) = b"
proof -
  assume "normalize_block b = b"
  then have "b \<noteq> []" "last b = LF" using normalized_ends [of b] by auto
  then have "butlast b @ [LF] = b" by (metis append_butlast_last_id)
  then show ?thesis by (simp add: block_lines_def unlines_split)
qed

lemma block_lines_Nil: "block_lines [LF] = [[]]"
  by (simp add: block_lines_def)

lemma plain_block_not_empty: "plain_block b \<Longrightarrow> b \<noteq> [LF]"
  by (auto simp: plain_block_def block_lines_def strip_Nil)

lemma block_lines_chars:
  assumes "\<forall>c\<in>set b. c = LF \<or> \<not> is_linebreak c" and "l \<in> set (block_lines b)"
  shows "\<forall>c\<in>set l. \<not> is_linebreak c"
proof
  fix c assume "c \<in> set l"
  with assms(2) have "c \<in> set (butlast b)" "c \<noteq> LF"
    using split_chars [of l LF "butlast b"] by (auto simp: block_lines_def)
  with assms(1) show "\<not> is_linebreak c" by (auto dest: in_set_butlastD)
qed

lemma plain_or_empty_normalized: "plain_or_empty b \<Longrightarrow> normalize_block b = b"
  by (auto simp: plain_or_empty_def plain_block_def normalize_block_newline)

lemma plain_or_empty_chars: "plain_or_empty b \<Longrightarrow> \<forall>c\<in>set b. c = LF \<or> \<not> is_linebreak c"
  by (auto simp: plain_or_empty_def plain_block_def list_all_iff)

lemma unlines_body_lines:
  "\<forall>b\<in>set d. plain_or_empty b \<Longrightarrow> unlines (body_lines d) = concat (map (\<lambda>b. b @ [LF]) d)"
  by (induction d) (auto simp: body_lines_def unlines_block_lines plain_or_empty_normalized)

lemma body_lines_chars:
  assumes "\<forall>b\<in>set d. plain_or_empty b" and "l \<in> set (body_lines d)"
  shows "\<forall>c\<in>set l. \<not> is_linebreak c"
proof -
  from assms(2) have "l = [] \<or> (\<exists>b\<in>set d. l \<in> set (block_lines b))"
    by (auto simp: body_lines_def split: if_splits)
  then show ?thesis
  proof
    assume "l = []" then show ?thesis by simp
  next
    assume "\<exists>b\<in>set d. l \<in> set (block_lines b)"
    then obtain b where "b \<in> set d" "l \<in> set (block_lines b)" by auto
    with assms(1) show ?thesis using block_lines_chars [of b l] plain_or_empty_chars [of b] by blast
  qed
qed

lemma split_loop_body:
  "\<forall>b\<in>set d. plain_or_empty b \<Longrightarrow>
     split_loop (body_lines d @ rest) blocks [] =
       split_loop rest (blocks @ filter (\<lambda>b. b \<noteq> [LF]) d) []"
proof (induction d arbitrary: blocks)
  case Nil
  then show ?case by (simp add: body_lines_def)
next
  case (Cons b d)
  then have ok: "plain_or_empty b" and rest: "\<forall>b\<in>set d. plain_or_empty b" by auto
  have bl: "body_lines (b # d) @ rest = block_lines b @ [] # (body_lines d @ rest)"
    by (simp add: body_lines_def)
  show ?case
  proof (cases "b = [LF]")
    case True
    have "split_loop (body_lines (b # d) @ rest) blocks [] =
          split_loop (body_lines d @ rest) blocks []"
      unfolding bl using True by (simp add: block_lines_Nil strip_Nil)
    with True show ?thesis
      using Cons.IH [OF rest, of blocks] by simp
  next
    case False
    with ok have pb: "plain_block b" by (simp add: plain_or_empty_def)
    then have nb: "\<forall>l\<in>set (block_lines b). strip l \<noteq> []"
      by (simp add: plain_block_def block_lines_def list_all_iff)
    have ne: "block_lines b \<noteq> []" by (simp add: block_lines_def split_not_Nil)
    have "split_loop (body_lines (b # d) @ rest) blocks [] =
          split_loop (body_lines d @ rest) (blocks @ [unlines (block_lines b)]) []"
      unfolding bl using ne nb by (rule split_loop_block)
    also have "unlines (block_lines b) = b"
      using pb by (simp add: unlines_block_lines plain_block_def)
    finally show ?thesis using Cons.IH [OF rest, of "blocks @ [b]"] False by simp
  qed
qed

lemma split_into_blocks_body:
  assumes "\<forall>b\<in>set d. plain_or_empty b"
  shows "split_into_blocks (join NEW_LINE (body_lines d)) = filter (\<lambda>b. b \<noteq> [LF]) d"
proof (cases "d = []")
  case True
  then show ?thesis by (simp add: body_lines_def split_into_blocks_def strip_Nil)
next
  case False
  then have ne: "body_lines d \<noteq> []" by (cases d) (auto simp: body_lines_def)
  have "\<forall>l\<in>set (body_lines d). LF \<notin> set l"
    using body_lines_chars [OF assms] is_linebreak_LF by blast
  with ne have "split LF (join [LF] (body_lines d)) = body_lines d" by (rule split_join)
  moreover have "split_loop (body_lines d) [] [] = (filter (\<lambda>b. b \<noteq> [LF]) d, [])"
    using split_loop_body [OF assms, of "[]" "[]"] by simp
  ultimately show ?thesis by (simp add: split_into_blocks_def NEW_LINE_def)
qed

lemma set_strip: "set (strip s) \<subseteq> set s"
proof -
  have "set (strip s) \<subseteq> set (rstrip s)"
    by (auto simp: strip_def lstrip_def dest: set_dropWhileD)
  also have "\<dots> \<subseteq> set s"
    by (auto simp: rstrip_def dest: set_dropWhileD)
  finally show ?thesis .
qed

lemma set_slice: "set (slice s a b) \<subseteq> set s"
  by (auto simp: slice_def dest: in_set_takeD in_set_dropD)

lemma get_title_author_chars:
  "set (fst (get_title_author h)) \<subseteq> set h \<and> set (snd (get_title_author h)) \<subseteq> set h"
  using set_strip [of h] set_strip [of "slice h 0 (rfind CHR ''('' h)"]
    set_strip [of "slice h (rfind CHR ''('' h + 1) (rfind CHR '')'' h)"]
    set_slice [of h 0 "rfind CHR ''('' h"]
    set_slice [of h "rfind CHR ''('' h + 1" "rfind CHR '')'' h"]
  by (auto simp: get_title_author_def Let_def)

lemma file_text_unlines:
  "\<forall>b\<in>set d. plain_or_empty b \<Longrightarrow>
     file_text t a d = unlines ((t @ '', '' @ a) # [] # body_lines d)"
  by (simp add: file_text_def unlines_body_lines)

lemma read_existing_blocks_own_file:
  assumes t: "\<forall>c\<in>set t. \<not> is_linebreak c" and a: "\<forall>c\<in>set a. \<not> is_linebreak c"
      and d: "\<forall>b\<in>set d. plain_or_empty b"
  shows "read_existing_blocks (universal_newlines (file_text t a d)) = filter (\<lambda>b. b \<noteq> [LF]) d"
proof -
  let ?first = "t @ '', '' @ a"
  let ?lines = "?first # [] # body_lines d"
  have first: "\<forall>c\<in>set ?first. \<not> is_linebreak c"
    using t a by (auto simp: is_linebreak_def)
  have lines: "\<forall>l\<in>set ?lines. \<forall>c\<in>set l. \<not> is_linebreak c"
    using first body_lines_chars [OF d] by auto
  have ft: "file_text t a d = unlines ?lines" using d by (rule file_text_unlines)
  have "CR \<notin> set (unlines ?lines)"
    using lines is_linebreak_CR LF_neq_CR by (auto simp: unlines_def)
  then have un: "universal_newlines (file_text t a d) = unlines ?lines"
    by (simp add: ft universal_newlines_id)
  have sl: "splitlines (unlines ?lines) = ?lines" using lines by (rule splitlines_unlines)
  show ?thesis
    unfolding read_existing_blocks_def un sl
    by (simp add: Let_def strip_Nil split_into_blocks_body [OF d])
qed

lemma merge_loop_present: "set old \<subseteq> set d \<Longrightarrow> \<forall>b\<in>set old. normalize_block b = b \<Longrightarrow>
    merge_loop old d = d"
  by (induction old arbitrary: d) (auto simp: setdefault_def)

text \<open>
  Claim C3 says that re-extracting the blocks of a just-written file and normalizing them
  gives back exactly the canonical blocks that were written, so that merging a book's own
  file adds nothing. \<open>_split_into_blocks\<close> emits a block only
  \<open>if current_block\<close>, so the empty block, which the Reader stores for an annotation
  without text, is written and never recovered. It also ends a block at every line that
  is empty after \<open>strip()\<close>: a block with a line of one space inside comes back as two
  blocks, and merging the book's own file adds them.
\<close>

theorem own_file_not_recovered:
  "normalize_block ''\<newline>'' = ''\<newline>''
   \<and> read_loop [] ''Book\<newline>==========\<newline>'' = [(''Book'', [''\<newline>''])]
   \<and> map normalize_block
        (read_existing_blocks (universal_newlines (file_text ''Book'' [] [''\<newline>''])))
      = []
   \<and> normalize_block ''a\<newline> \<newline>b\<newline>'' = ''a\<newline> \<newline>b\<newline>''
   \<and> read_loop [] ''Book\<newline>a\<newline> \<newline>b\<newline>==========\<newline>'' = [(''Book'', [''a\<newline> \<newline>b\<newline>''])]
   \<and> map normalize_block
        (read_existing_blocks (universal_newlines (file_text ''Book'' [] [''a\<newline> \<newline>b\<newline>''])))
      = [''a\<newline>'', ''b\<newline>'']
   \<and> merge_with_existing (universal_newlines (file_text ''Book'' [] [''a\<newline> \<newline>b\<newline>'']))
        [''a\<newline> \<newline>b\<newline>'']
      = [''a\<newline> \<newline>b\<newline>'', ''a\<newline>'', ''b\<newline>'']"
  by code_simp

text \<open>
  Claim C3, amended. Let the header have no line boundary character, and let every block
  of the ordered set be the empty block or a plain block. Then re-extracting the blocks
  of the written file by the Merger's splitting procedure and normalizing each gives
  exactly the written blocks other than the empty block, in their order; merging the
  book's own just-written file into its block set leaves the set unchanged; and writing
  the book again in merge mode leaves the block set and the file as they are.
\<close>

theorem own_file_roundtrip:
  assumes "list_all (\<lambda>c. \<not> is_linebreak c) h" and "list_all plain_or_empty d"
  shows "map normalize_block
           (read_existing_blocks (universal_newlines
              (file_text (fst (get_title_author h)) (snd (get_title_author h)) d)))
         = filter (\<lambda>b. b \<noteq> [LF]) d
       \<and> merge_with_existing (universal_newlines
              (file_text (fst (get_title_author h)) (snd (get_title_author h)) d)) d = d
       \<and> write_book hash out True h d (snd (write_book hash out False h d fs))
         = (d, snd (write_book hash out False h d fs))"
proof -
  let ?t = "fst (get_title_author h)" and ?a = "snd (get_title_author h)"
  let ?content = "universal_newlines (file_text ?t ?a d)"
  let ?p = "path_join out (output_filename hash h)"
  from assms(1) have t: "\<forall>c\<in>set ?t. \<not> is_linebreak c" and a: "\<forall>c\<in>set ?a. \<not> is_linebreak c"
    using get_title_author_chars [of h] by (auto simp: list_all_iff)
  from assms(2) have d: "\<forall>b\<in>set d. plain_or_empty b" by (simp add: list_all_iff)
  have re: "read_existing_blocks ?content = filter (\<lambda>b. b \<noteq> [LF]) d"
    using t a d by (rule read_existing_blocks_own_file)
  have norm: "\<forall>b\<in>set (filter (\<lambda>b. b \<noteq> [LF]) d). normalize_block b = b"
    using d by (auto simp: plain_or_empty_normalized)
  have m: "map normalize_block (filter (\<lambda>b. b \<noteq> [LF]) d) = filter (\<lambda>b. b \<noteq> [LF]) d"
    by (rule map_idI) (use norm in auto)
  have mw: "merge_with_existing ?content d = d"
    unfolding merge_with_existing_def re using norm by (intro merge_loop_present) auto
  have w1: "snd (write_book hash out False h d fs) = fs(?p \<mapsto> file_text ?t ?a d)"
    by (simp add: write_book_def Let_def split: prod.splits)
  have wb: "write_book hash out True h d (fs(?p \<mapsto> file_text ?t ?a d))
         = (d, fs(?p \<mapsto> file_text ?t ?a d))"
    using mw by (simp add: write_book_def Let_def open_read_def split: prod.splits)
  from re m mw wb show ?thesis unfolding w1 by simp
qed

theorem own_file_roundtrip_witness:
  "list_all (\<lambda>c. \<not> is_linebreak c) ''My Book (Jane Doe)''
   \<and> list_all plain_or_empty [''This is a highlight.\<newline>'', ''\<newline>'', ''two\<newline>  lines\<newline>'']
   \<and> map normalize_block
        (read_existing_blocks (universal_newlines
           (file_text ''My Book'' ''Jane Doe''
              [''This is a highlight.\<newline>'', ''\<newline>'', ''two\<newline>  lines\<newline>''])))
      = [''This is a highlight.\<newline>'', ''two\<newline>  lines\<newline>'']
   \<and> merge_with_existing (universal_newlines
           (file_text ''My Book'' ''Jane Doe''
              [''This is a highlight.\<newline>'', ''\<newline>'', ''two\<newline>  lines\<newline>'']))
        [''This is a highlight.\<newline>'', ''\<newline>'', ''two\<newline>  lines\<newline>'']
      = [''This is a highlight.\<newline>'', ''\<newline>'', ''two\<newline>  lines\<newline>'']
   \<and> fst (write_book (\<lambda>_. 7) ''out'' True ''My Book (Jane Doe)''
             [''This is a highlight.\<newline>'', ''\<newline>'', ''two\<newline>  lines\<newline>'']
             (snd (write_book (\<lambda>_. 7) ''out'' False ''My Book (Jane Doe)''
                [''This is a highlight.\<newline>'', ''\<newline>'', ''two\<newline>  lines\<newline>''] Map.empty)))
      = [''This is a highlight.\<newline>'', ''\<newline>'', ''two\<newline>  lines\<newline>'']"
proof -
  have h: "list_all (\<lambda>c. \<not> is_linebreak c) ''My Book (Jane Doe)''"
    by code_simp
  have d: "list_all plain_or_empty [''This is a highlight.\<newline>'', ''\<newline>'', ''two\<newline>  lines\<newline>'']"
    by code_simp
  have ta: "get_title_author ''My Book (Jane Doe)'' = (''My Book'', ''Jane Doe'')"
    by code_simp
  have f: "filter (\<lambda>b. b \<noteq> [LF]) [''This is a highlight.\<newline>'', ''\<newline>'', ''two\<newline>  lines\<newline>'']
           = [''This is a highlight.\<newline>'', ''two\<newline>  lines\<newline>'']"
    by code_simp
  from own_file_roundtrip [OF h d, of "\<lambda>_. 7" "''out''" Map.empty] h d
  show ?thesis unfolding ta f by simp
qed

end
